theory Spec2Isabelle
  imports Main
begin

section \<open>Text, errors and the regular expressions of \<open>main.py\<close>\<close>

text \<open>
  A Python \<open>str\<close> is a sequence of Unicode code points; the patterns of the program are
  Chinese text, so a string is modelled as the list of its code points (\<open>len\<close>, slicing and
  the regular expression \<open>.\<close> all count code points, not bytes).
\<close>

type_synonym ustring = "nat list"

text \<open>The exceptions the modelled code can raise.\<close>

datatype error = TypeError | IndexError | KeyError | ValueError

text \<open>
  The fragment of Python's \<open>re\<close> that the program uses. A pattern is a list of
  alternatives (\<open>a|b\<close>), an alternative is a sequence of items, an item is a literal
  character, a greedy \<open>k+\<close> or a lazy \<open>k*?\<close> over a character class \<open>k\<close>. The class
  \<open>[0-9]\<close> is the range of the ASCII digits, \<open>.\<close> is every character but the newline.
  \<open>Star\<close> is the greedy \<open>k*\<close>, which the matcher uses for the tail of \<open>k+\<close>.
  The group of \<open>(.*?)\<close> is never read by the program (only group 0 is), so it is not
  recorded.
\<close>

datatype cls = Range nat nat | Dot

datatype rx_item = Chr nat | Plus cls | Star cls | LazyStar cls

type_synonym pattern = "rx_item list list"

fun cls_mem :: "cls \<Rightarrow> nat \<Rightarrow> bool" where
  "cls_mem (Range lo hi) c = (lo \<le> c \<and> c \<le> hi)"
| "cls_mem Dot c = (c \<noteq> 10)"

text \<open>
  \<open>rx_seq items s\<close> is the backtracking matcher at the start of \<open>s\<close>: the length of the
  match that Python's engine finds first (greedy items try the longest repetition
  first, lazy ones the shortest), or \<open>None\<close>.
\<close>

fun rx_seq :: "rx_item list \<Rightarrow> ustring \<Rightarrow> nat option" where
  "rx_seq [] s = Some 0"
| "rx_seq (Chr c # r) [] = None"
| "rx_seq (Chr c # r) (x # xs) = (if x = c then map_option Suc (rx_seq r xs) else None)"
| "rx_seq (Plus k # r) [] = None"
| "rx_seq (Plus k # r) (x # xs) =
     (if cls_mem k x then map_option Suc (rx_seq (Star k # r) xs) else None)"
| "rx_seq (Star k # r) [] = rx_seq r []"
| "rx_seq (Star k # r) (x # xs) =
     (if cls_mem k x
      then (case rx_seq (Star k # r) xs of
              Some n \<Rightarrow> Some (Suc n)
            | None \<Rightarrow> rx_seq r (x # xs))
      else rx_seq r (x # xs))"
| "rx_seq (LazyStar k # r) [] = rx_seq r []"
| "rx_seq (LazyStar k # r) (x # xs) =
     (case rx_seq r (x # xs) of
        Some n \<Rightarrow> Some n
      | None \<Rightarrow> (if cls_mem k x then map_option Suc (rx_seq (LazyStar k # r) xs) else None))"

fun rx_alts :: "pattern \<Rightarrow> ustring \<Rightarrow> nat option" where
  "rx_alts [] s = None"
| "rx_alts (a # as) s = (case rx_seq a s of Some n \<Rightarrow> Some n | None \<Rightarrow> rx_alts as s)"

text \<open>\<open>re.match(p, s)\<close>: the match anchored at the start; the value is group 0.\<close>

definition re_match :: "pattern \<Rightarrow> ustring \<Rightarrow> ustring option" where
  "re_match p s = map_option (\<lambda>n. take n s) (rx_alts p s)"

text \<open>\<open>re.search(p, s)\<close>: the match at the leftmost position that has one.\<close>

fun re_search :: "pattern \<Rightarrow> ustring \<Rightarrow> ustring option" where
  "re_search p [] = re_match p []"
| "re_search p (x # xs) =
     (case re_match p (x # xs) of Some m \<Rightarrow> Some m | None \<Rightarrow> re_search p xs)"

definition lit :: "ustring \<Rightarrow> rx_item list" where
  "lit s = map Chr s"

definition digit :: cls where
  "digit = Range 48 57"

text \<open>The characters of the patterns, by code point.\<close>

definition confirmed_case :: ustring where
  "confirmed_case = [0x786E, 0x8BCA, 0x75C5, 0x4F8B]"

definition close_contact :: ustring where
  "close_contact = [0x5BC6, 0x63A5]"

definition male :: nat where
  "male = 0x7537"

definition female :: nat where
  "female = 0x5973"

definition years_old :: ustring where
  "years_old = [0x5C81]"

definition residing :: ustring where
  "residing = [0x73B0, 0x4F4F]"

definition full_stop :: ustring where
  "full_stop = [0x3002]"

definition activities :: ustring where
  "activities = [0x6D3B, 0x52A8, 0x8F68, 0x8FF9]"

definition month :: ustring where
  "month = [0x6708]"

definition day_yangzhou :: ustring where
  "day_yangzhou = [0x65E5, 0x626C, 0x5DDE]"

text \<open>The patterns of the program, in the order of the source.\<close>

definition number_pat :: pattern where
  "number_pat = [[Plus digit]]"

definition boundary_pat :: pattern where
  "boundary_pat = [lit confirmed_case @ [Plus digit]]"

definition cc_pat :: pattern where
  "cc_pat = [Plus digit # lit close_contact]"

definition gender_pat :: pattern where
  "gender_pat = [[Chr male], [Chr female]]"

definition age_pat :: pattern where
  "age_pat = [Plus digit # lit years_old]"

definition address_pat :: pattern where
  "address_pat = [lit residing @ [LazyStar Dot] @ lit full_stop]"

definition trace_pat :: pattern where
  "trace_pat = [lit activities]"

definition link_pat :: pattern where
  "link_pat = [Plus digit # lit month @ [Plus digit] @ lit day_yangzhou]"

section \<open>Case records\<close>

record Case =
  case_id :: int
  close_contact_id :: int
  gender :: int
  age :: int
  address :: ustring
  trace :: ustring

text \<open>\<open>Case()\<close> with the defaults of \<open>__init__\<close>.\<close>

definition new_Case :: Case where
  "new_Case = \<lparr>case_id = -1, close_contact_id = -1, gender = -1, age = -1,
               address = [], trace = []\<rparr>"

definition is_empty :: "Case \<Rightarrow> bool" where
  "is_empty c = (gender c = -1 \<and> close_contact_id c = -1 \<and> age c = -1
                 \<and> address c = [] \<and> trace c = [])"

section \<open>\<open>extract_number\<close>\<close>

text \<open>
  \<open>int(d[i])\<close> is only ever applied to a match of \<open>[0-9]+\<close>. On a string of ASCII
  digits \<open>int\<close> returns its decimal value, \<open>dec_value\<close>, unless the string is longer
  than \<open>sys.get_int_max_str_digits()\<close>, 4300 by default: then it raises ValueError.
  Every digit character counts, leading zeros too. Python's integers themselves are
  unbounded.
\<close>

definition dec_value :: "ustring \<Rightarrow> int" where
  "dec_value s = foldl (\<lambda>a c. 10 * a + (int c - 48)) 0 s"

definition int_max_str_digits :: nat where
  "int_max_str_digits = 4300"

definition py_int :: "ustring \<Rightarrow> error + int" where
  "py_int s = (if int_max_str_digits < length s then Inl ValueError else Inr (dec_value s))"

text \<open>
  \<open>d = re.search('[0-9]+', s); return int(d[i])\<close>. With no digit in \<open>s\<close>, \<open>d\<close> is
  \<open>None\<close> and the subscript raises TypeError; the pattern has no group, so every
  \<open>i\<close> but 0 raises IndexError; \<open>d[0]\<close> is the whole match, which \<open>int\<close> converts.
\<close>

definition extract_number :: "ustring \<Rightarrow> nat \<Rightarrow> error + int" where
  "extract_number s i =
     (case re_search number_pat s of
        None \<Rightarrow> Inl TypeError
      | Some d \<Rightarrow> if i = 0 then py_int d else Inl IndexError)"

section \<open>\<open>find_cases\<close>\<close>

text \<open>Python's \<open>s[2:-1]\<close>, for every length of \<open>s\<close>.\<close>

definition slice_2_to_last :: "ustring \<Rightarrow> ustring" where
  "slice_2_to_last s = butlast (drop 2 s)"

text \<open>
  The body of \<open>if re.match('...', text)\<close> up to the append: the record built from the
  text of one boundary node. The four searches run one after the other on the same
  text; a call of \<open>extract_number\<close> that raises abandons the record and the walk.
\<close>

definition build_case :: "ustring \<Rightarrow> error + Case" where
  "build_case text =
     (case extract_number text 0 of
        Inl e \<Rightarrow> Inl e
      | Inr cid \<Rightarrow>
         (case (case re_search cc_pat text of
                  Some ccres \<Rightarrow> extract_number ccres 0
                | None \<Rightarrow> Inr (-1)) of
            Inl e \<Rightarrow> Inl e
          | Inr cc \<Rightarrow>
             (let g = (case re_search gender_pat text of
                         None \<Rightarrow> gender new_Case
                       | Some gres \<Rightarrow> if gres = [male] then 0 else 1)
              in (case (case re_search age_pat text of
                          None \<Rightarrow> Inr (age new_Case)
                        | Some ageres \<Rightarrow> extract_number ageres 0) of
                    Inl e \<Rightarrow> Inl e
                  | Inr a \<Rightarrow>
                     (let addr = (case re_search address_pat text of
                                    None \<Rightarrow> address new_Case
                                  | Some ares \<Rightarrow> slice_2_to_last ares)
                      in Inr (new_Case\<lparr>case_id := cid, close_contact_id := cc,
                                gender := g, age := a, address := addr\<rparr>))))))"

text \<open>The conditions of the second and third \<open>if\<close> of the loop body.\<close>

definition boundary_match :: "ustring \<Rightarrow> bool" where
  "boundary_match text = (re_match boundary_pat text \<noteq> None)"

definition label_match :: "ustring \<Rightarrow> bool" where
  "label_match text = (re_match trace_pat text \<noteq> None)"

text \<open>\<open>all_cases[-1].trace = text\<close>: IndexError on the empty list.\<close>

definition set_last_trace :: "Case list \<Rightarrow> ustring \<Rightarrow> error + Case list" where
  "set_last_trace all_cases text =
     (if all_cases = [] then Inl IndexError
      else Inr (butlast all_cases @ [(last all_cases)\<lparr>trace := text\<rparr>]))"

text \<open>
  The three \<open>if\<close> statements of the loop body, in the order of the source. The state of
  the loop is the list \<open>all_cases\<close> and \<open>flag\<close>.
\<close>

definition assign_trace :: "Case list \<times> bool \<Rightarrow> ustring \<Rightarrow> error + Case list \<times> bool" where
  "assign_trace st text =
     (case st of (all_cases, flag) \<Rightarrow>
        if flag
        then (case set_last_trace all_cases text of
                Inl e \<Rightarrow> Inl e
              | Inr cs \<Rightarrow> Inr (cs, False))
        else Inr (all_cases, flag))"

definition detect_case :: "Case list \<times> bool \<Rightarrow> ustring \<Rightarrow> error + Case list \<times> bool" where
  "detect_case st text =
     (case st of (all_cases, flag) \<Rightarrow>
        if boundary_match text
        then (case build_case text of
                Inl e \<Rightarrow> Inl e
              | Inr c \<Rightarrow> Inr (all_cases @ [c], flag))
        else Inr (all_cases, flag))"

definition detect_label :: "Case list \<times> bool \<Rightarrow> ustring \<Rightarrow> Case list \<times> bool" where
  "detect_label st text =
     (case st of (all_cases, flag) \<Rightarrow>
        if label_match text then (all_cases, True) else (all_cases, flag))"

definition span_step :: "Case list \<times> bool \<Rightarrow> ustring \<Rightarrow> error + Case list \<times> bool" where
  "span_step st text =
     (case assign_trace st text of
        Inl e \<Rightarrow> Inl e
      | Inr st1 \<Rightarrow>
         (case detect_case st1 text of
            Inl e \<Rightarrow> Inl e
          | Inr st2 \<Rightarrow> Inr (detect_label st2 text)))"

fun span_loop :: "ustring list \<Rightarrow> Case list \<times> bool \<Rightarrow> error + Case list \<times> bool" where
  "span_loop [] st = Inr st"
| "span_loop (text # rest) st =
     (case span_step st text of
        Inl e \<Rightarrow> Inl e
      | Inr st' \<Rightarrow> span_loop rest st')"

text \<open>
  \<open>find_cases\<close> on the texts of the \<open>span\<close> nodes of a document, in document order
  (\<open>soup.find_all('span')\<close> and \<open>get_text\<close> belong to the markup library).
\<close>

definition find_cases :: "ustring list \<Rightarrow> error + Case list" where
  "find_cases spans =
     (case span_loop spans ([], False) of
        Inl e \<Rightarrow> Inl e
      | Inr (all_cases, flag) \<Rightarrow> Inr all_cases)"

section \<open>The main program: merging, sorting and output\<close>

text \<open>
  Lines 165 to 171: \<open>find_cases\<close> runs once on each fetched document, in list order, and
  its records are appended to the merged list. An exception ends the run.
\<close>

fun collect_cases :: "ustring list list \<Rightarrow> Case list \<Rightarrow> error + Case list" where
  "collect_cases [] all_cases = Inr all_cases"
| "collect_cases (spans # rest) all_cases =
     (case find_cases spans of
        Inl e \<Rightarrow> Inl e
      | Inr cases \<Rightarrow> collect_cases rest (all_cases @ cases))"

text \<open>
  ASCII text of the source as code points, and \<open>'{}'.format(n)\<close> for an integer. The
  integers of the program's records are \<open>-1\<close> or come from \<open>int\<close> on at most 4300
  digits, so formatting them stays within the same limit and does not raise.
\<close>

definition ascii :: "string \<Rightarrow> ustring" where
  "ascii s = map of_char s"

fun digits_of_nat :: "nat \<Rightarrow> ustring" where
  "digits_of_nat n =
     (if n < 10 then [48 + n] else digits_of_nat (n div 10) @ [48 + n mod 10])"

declare digits_of_nat.simps [simp del]

definition str_int :: "int \<Rightarrow> ustring" where
  "str_int i = (if i < 0 then 45 # digits_of_nat (nat (- i)) else digits_of_nat (nat i))"

definition comma :: nat where
  "comma = 44"

definition newline :: nat where
  "newline = 10"

definition tab :: nat where
  "tab = 9"

text \<open>\<open>Case.__str__\<close> and \<open>Case.csv\<close>.\<close>

definition str_Case :: "Case \<Rightarrow> ustring" where
  "str_Case c =
     ascii ''Confirmed case #'' @ str_int (case_id c) @ [newline, tab]
     @ ascii ''Gender: '' @ str_int (gender c) @ [newline, tab]
     @ ascii ''Age: '' @ str_int (age c) @ [newline, tab]
     @ ascii ''Home address: '' @ address c @ [newline, tab]
     @ ascii ''Close contact of case #'' @ str_int (close_contact_id c) @ [newline, tab]
     @ ascii ''Activities: '' @ trace c @ [newline]"

definition csv :: "Case \<Rightarrow> ustring" where
  "csv c =
     str_int (case_id c) @ [comma] @ str_int (gender c) @ [comma] @ str_int (age c) @ [comma]
     @ address c @ [comma] @ str_int (close_contact_id c) @ [comma] @ trace c @ [newline]"

definition csv_header :: ustring where
  "csv_header = ascii ''case_id,gender,age,address,close_contact,trace'' @ [newline]"

text \<open>
  Lines 172 to 180. \<open>list.sort\<close> is stable, as \<open>sort_key\<close> is. The first loop prints
  (\<open>print\<close> ends each record with one more newline), the second writes to
  \<open>result.csv\<close>; both are modelled by the list of the strings they emit, in order.
\<close>

fun print_loop :: "Case list \<Rightarrow> ustring list \<Rightarrow> ustring list" where
  "print_loop [] out = out"
| "print_loop (c # rest) out =
     (if \<not> is_empty c then print_loop rest (out @ [str_Case c @ [newline]])
      else print_loop rest out)"

fun write_loop :: "Case list \<Rightarrow> ustring list \<Rightarrow> ustring list" where
  "write_loop [] out = out"
| "write_loop (c # rest) out =
     (if \<not> is_empty c then write_loop rest (out @ [csv c])
      else write_loop rest out)"

definition console_report :: "Case list \<Rightarrow> ustring list" where
  "console_report all_cases = print_loop (sort_key case_id all_cases) []"

definition result_csv :: "Case list \<Rightarrow> ustring list" where
  "result_csv all_cases = write_loop (sort_key case_id all_cases) [csv_header]"

section \<open>\<open>compile_url_list\<close>\<close>

text \<open>
  An \<open>a\<close> node of the entry document: its visible text and its attributes.
  \<open>a['href']\<close> raises KeyError when the attribute is missing. The argument is the list
  \<open>soup.find_all('a')\<close> of the fetched entry document.
\<close>

record anchor =
  a_text :: ustring
  a_attrs :: "string \<rightharpoonup> ustring"

definition link_match :: "ustring \<Rightarrow> bool" where
  "link_match text = (re_match link_pat text \<noteq> None)"

fun url_loop :: "anchor list \<Rightarrow> ustring list \<Rightarrow> error + ustring list" where
  "url_loop [] urllist = Inr urllist"
| "url_loop (a # rest) urllist =
     (if link_match (a_text a)
      then (case a_attrs a ''href'' of
              None \<Rightarrow> Inl KeyError
            | Some href \<Rightarrow> url_loop rest (urllist @ [href]))
      else url_loop rest urllist)"

definition compile_url_list :: "anchor list \<Rightarrow> error + ustring list" where
  "compile_url_list anchors = url_loop anchors []"

section \<open>Notions of the specification\<close>

text \<open>The first run of digits of a text, as the specification words it.\<close>

definition is_digit :: "nat \<Rightarrow> bool" where
  "is_digit c = cls_mem digit c"

definition first_digit_run :: "ustring \<Rightarrow> ustring" where
  "first_digit_run s = takeWhile is_digit (dropWhile (\<lambda>c. \<not> is_digit c) s)"

text \<open>
  The field extractors of the specification: each is a function of the text and of
  its own pattern only, with the unset value where the pattern is not found.
\<close>

definition number_field :: "pattern \<Rightarrow> ustring \<Rightarrow> int" where
  "number_field p text =
     (case re_search p text of None \<Rightarrow> -1 | Some m \<Rightarrow> dec_value (first_digit_run m))"

definition gender_field :: "ustring \<Rightarrow> int" where
  "gender_field text =
     (case re_search gender_pat text of
        None \<Rightarrow> -1
      | Some m \<Rightarrow> if m = [male] then 0 else 1)"

definition address_field :: "ustring \<Rightarrow> ustring" where
  "address_field text =
     (case re_search address_pat text of None \<Rightarrow> [] | Some m \<Rightarrow> butlast (drop 2 m))"

text \<open>
  The digit runs that \<open>int\<close> converts for a boundary node are the first run of the
  text and the first runs of the close-contact and age matches, where these are
  found. \<open>digits_ok\<close>: none of them is longer than the limit of \<open>int\<close>.
\<close>

definition within_limit :: "ustring \<Rightarrow> bool" where
  "within_limit run = (length run \<le> int_max_str_digits)"

definition found_within_limit :: "pattern \<Rightarrow> ustring \<Rightarrow> bool" where
  "found_within_limit p text =
     (case re_search p text of None \<Rightarrow> True | Some m \<Rightarrow> within_limit (first_digit_run m))"

definition digits_ok :: "ustring \<Rightarrow> bool" where
  "digits_ok text =
     (within_limit (first_digit_run text) \<and> found_within_limit cc_pat text
      \<and> found_within_limit age_pat text)"

text \<open>
  \<open>record_of r text\<close>: \<open>r\<close> is, up to its activity trace, the record built from the
  boundary node \<open>text\<close>.
\<close>

definition record_of :: "Case \<Rightarrow> ustring \<Rightarrow> bool" where
  "record_of r text = (build_case text = Inr (r\<lparr>trace := []\<rparr>))"

text \<open>
  A trace label that is followed by a further node and that no boundary node
  precedes.
\<close>

fun orphan_trace :: "ustring list \<Rightarrow> bool" where
  "orphan_trace [] = False"
| "orphan_trace (text # rest) =
     (if boundary_match text then False
      else if label_match text then rest \<noteq> []
      else orphan_trace rest)"

text \<open>
  Reading a row of the delimited file back: the line without its terminator, split
  at every comma (\<open>str.split(',')\<close>), and the four numeric columns read as integers.
\<close>

fun split_on :: "nat \<Rightarrow> ustring \<Rightarrow> ustring list" where
  "split_on d [] = [[]]"
| "split_on d (x # xs) =
     (if x = d then [] # split_on d xs
      else (case split_on d xs of
              [] \<Rightarrow> [[x]]
            | y # ys \<Rightarrow> (x # y) # ys))"

definition read_int :: "ustring \<Rightarrow> int" where
  "read_int s = (case s of [] \<Rightarrow> 0 | c # r \<Rightarrow> if c = 45 then - dec_value r else dec_value s)"

definition parse_row :: "ustring \<Rightarrow> Case option" where
  "parse_row row =
     (if row = [] \<or> last row \<noteq> newline then None
      else (case split_on comma (butlast row) of
              [f1, f2, f3, f4, f5, f6] \<Rightarrow>
                Some \<lparr>case_id = read_int f1, close_contact_id = read_int f5,
                      gender = read_int f2, age = read_int f3, address = f4, trace = f6\<rparr>
            | _ \<Rightarrow> None))"

section \<open>Properties of the regular expressions\<close>

lemma rx_star_only: "rx_seq [Star k] s = Some (length (takeWhile (cls_mem k) s))"
  by (induction s) simp_all

lemma rx_plus_only:
  "rx_seq [Plus k] s =
     (if s \<noteq> [] \<and> cls_mem k (hd s) then Some (length (takeWhile (cls_mem k) s)) else None)"
  by (cases s) (simp_all add: rx_star_only)

lemma take_length_takeWhile: "take (length (takeWhile P s)) s = takeWhile P s"
  by (induction s) simp_all

lemma re_match_number:
  "re_match number_pat s =
     (if s \<noteq> [] \<and> is_digit (hd s) then Some (takeWhile is_digit s) else None)"
proof -
  have "cls_mem digit = is_digit"
    by (rule ext) (simp add: is_digit_def)
  then show ?thesis
    unfolding re_match_def number_pat_def
    by (simp add: rx_plus_only take_length_takeWhile)
qed

lemma re_search_number:
  "re_search number_pat s =
     (if \<exists>c \<in> set s. is_digit c then Some (first_digit_run s) else None)"
proof (induction s)
  case Nil
  show ?case by (simp add: re_match_number)
next
  case (Cons x xs)
  show ?case
  proof (cases "is_digit x")
    case True
    then show ?thesis by (simp add: re_match_number first_digit_run_def)
  next
    case False
    then show ?thesis using Cons by (simp add: re_match_number first_digit_run_def)
  qed
qed

lemma re_search_suffix:
  "re_search p s = Some m \<Longrightarrow> \<exists>pre suf. s = pre @ suf \<and> re_match p suf = Some m"
proof (induction s)
  case Nil
  then show ?case by simp
next
  case (Cons x xs)
  show ?case
  proof (cases "re_match p (x # xs)")
    case None
    with Cons.prems have "re_search p xs = Some m" by simp
    then obtain pre suf where "xs = pre @ suf" "re_match p suf = Some m"
      using Cons.IH by blast
    then have "x # xs = (x # pre) @ suf \<and> re_match p suf = Some m" by simp
    then show ?thesis by blast
  next
    case (Some a)
    with Cons.prems have "x # xs = [] @ (x # xs) \<and> re_match p (x # xs) = Some m" by simp
    then show ?thesis by blast
  qed
qed

lemma rx_seq_Chr_Some:
  "rx_seq (Chr c # r) s = Some n \<longleftrightarrow> (\<exists>xs n'. s = c # xs \<and> rx_seq r xs = Some n' \<and> n = Suc n')"
  by (cases s) auto

lemma rx_seq_Plus_Some:
  "rx_seq (Plus k # r) s = Some n \<longleftrightarrow>
     (\<exists>x xs n'. s = x # xs \<and> cls_mem k x \<and> rx_seq (Star k # r) xs = Some n' \<and> n = Suc n')"
  by (cases s) auto

lemma re_match_single:
  "re_match [a] s = Some m \<longleftrightarrow> (\<exists>n. rx_seq a s = Some n \<and> m = take n s)"
  by (auto simp: re_match_def split: option.splits)

lemma re_match_plus_head:
  assumes "re_match [Plus k # r] s = Some m"
  shows "m \<noteq> [] \<and> cls_mem k (hd m)"
  using assms by (auto simp: re_match_single rx_seq_Plus_Some)

lemma re_search_plus_head:
  assumes "re_search [Plus digit # r] s = Some m"
  shows "m \<noteq> [] \<and> is_digit (hd m)"
  using re_search_suffix [OF assms] re_match_plus_head [of digit r _ m]
  by (auto simp: is_digit_def)

lemma boundary_shape:
  assumes "boundary_match s"
  shows "\<exists>d rest. s = confirmed_case @ d # rest \<and> is_digit d"
proof -
  from assms obtain m where "re_match boundary_pat s = Some m"
    by (auto simp: boundary_match_def)
  then show ?thesis
    by (auto simp: re_match_single boundary_pat_def lit_def confirmed_case_def is_digit_def
        rx_seq_Chr_Some rx_seq_Plus_Some)
qed

lemma label_shape:
  assumes "label_match s"
  shows "\<exists>rest. s = activities @ rest"
proof -
  from assms obtain m where "re_match trace_pat s = Some m"
    by (auto simp: label_match_def)
  then show ?thesis
    by (auto simp: re_match_single trace_pat_def lit_def activities_def rx_seq_Chr_Some)
qed

lemma label_not_boundary: "label_match s \<Longrightarrow> \<not> boundary_match s"
  using boundary_shape [of s] label_shape [of s]
  by (auto simp: activities_def confirmed_case_def)

lemma boundary_has_digit: "boundary_match s \<Longrightarrow> \<exists>c \<in> set s. is_digit c"
  using boundary_shape [of s] by auto

lemma boundary_first_run:
  assumes "boundary_match s"
  shows "first_digit_run s = takeWhile is_digit (drop 4 s) \<and> first_digit_run s \<noteq> []"
proof -
  from boundary_shape [OF assms] obtain d rest
    where s: "s = confirmed_case @ d # rest" and d: "is_digit d" by blast
  show ?thesis
    using d unfolding s first_digit_run_def confirmed_case_def
    by (simp add: is_digit_def digit_def)
qed

section \<open>Properties of \<open>extract_number\<close> and of the record of one node\<close>

lemma foldl_dec_nonneg:
  "0 \<le> a \<Longrightarrow> \<forall>c \<in> set s. is_digit c \<Longrightarrow> 0 \<le> foldl (\<lambda>a c. 10 * a + (int c - 48)) a s"
proof (induction s arbitrary: a)
  case Nil
  then show ?case by simp
next
  case (Cons x xs)
  have "0 \<le> 10 * a + (int x - 48)"
    using Cons.prems by (simp add: is_digit_def digit_def)
  then show ?case using Cons by simp
qed

lemma dec_value_nonneg: "\<forall>c \<in> set s. is_digit c \<Longrightarrow> 0 \<le> dec_value s"
  unfolding dec_value_def by (rule foldl_dec_nonneg) simp_all

lemma first_digit_run_digits: "\<forall>c \<in> set (first_digit_run s). is_digit c"
  unfolding first_digit_run_def by (auto dest: set_takeWhileD)

lemma extract_number_digit:
  "\<exists>c \<in> set s. is_digit c \<Longrightarrow> extract_number s 0 = py_int (first_digit_run s)"
  by (simp add: extract_number_def re_search_number)

lemma py_int_limit:
  "py_int run = (if within_limit run then Inr (dec_value run) else Inl ValueError)"
  by (auto simp: py_int_def within_limit_def)

lemma extract_number_no_digit:
  "\<not> (\<exists>c \<in> set s. is_digit c) \<Longrightarrow> extract_number s i = Inl TypeError"
  by (simp add: extract_number_def re_search_number)

lemma extract_number_match:
  assumes "re_search [Plus digit # r] s = Some m"
  shows "extract_number m 0 = py_int (first_digit_run m)"
proof -
  from re_search_plus_head [OF assms] have "m \<noteq> []" "is_digit (hd m)" by simp_all
  then have "\<exists>c \<in> set m. is_digit c" by (cases m) auto
  then show ?thesis by (rule extract_number_digit)
qed

lemma build_case_fields:
  assumes "\<exists>c \<in> set s. is_digit c"
  shows "build_case s =
           (if digits_ok s
            then Inr \<lparr>case_id = dec_value (first_digit_run s),
                      close_contact_id = number_field cc_pat s,
                      gender = gender_field s,
                      age = number_field age_pat s,
                      address = address_field s,
                      trace = []\<rparr>
            else Inl ValueError)"
proof -
  have cc: "(case re_search cc_pat s of Some ccres \<Rightarrow> extract_number ccres 0 | None \<Rightarrow> Inr (- 1))
              = (if found_within_limit cc_pat s then Inr (number_field cc_pat s)
                 else Inl ValueError)"
    by (auto simp: number_field_def found_within_limit_def cc_pat_def py_int_limit
        split: option.splits dest: extract_number_match)
  have ag: "(case re_search age_pat s of None \<Rightarrow> Inr (age new_Case)
               | Some ageres \<Rightarrow> extract_number ageres 0)
              = (if found_within_limit age_pat s then Inr (number_field age_pat s)
                 else Inl ValueError)"
    by (auto simp: number_field_def found_within_limit_def age_pat_def new_Case_def
        py_int_limit split: option.splits dest: extract_number_match)
  show ?thesis
    unfolding build_case_def extract_number_digit [OF assms] cc ag py_int_limit
    by (simp add: digits_ok_def gender_field_def address_field_def slice_2_to_last_def
        new_Case_def split: option.splits)
qed

lemma rx_seq_literal:
  "rx_seq items s = Some n \<Longrightarrow> Chr c \<in> set items \<Longrightarrow> c \<in> set s"
  by (induction items s arbitrary: n rule: rx_seq.induct)
     (auto split: if_splits option.splits)

lemma rx_alts_Some: "rx_alts p s = Some n \<Longrightarrow> \<exists>a \<in> set p. rx_seq a s = Some n"
  by (induction p) (auto split: option.splits)

lemma re_search_literal:
  assumes "\<forall>a \<in> set p. \<exists>c. Chr c \<in> set a \<and> c \<notin> set s"
  shows "re_search p s = None"
proof (rule ccontr)
  assume "re_search p s \<noteq> None"
  then obtain m where "re_search p s = Some m" by blast
  from re_search_suffix [OF this] obtain pre suf
    where s: "s = pre @ suf" and m: "re_match p suf = Some m" by blast
  from m obtain n where "rx_alts p suf = Some n" by (auto simp: re_match_def)
  from rx_alts_Some [OF this] obtain a where a: "a \<in> set p" "rx_seq a suf = Some n"
    by blast
  from assms a(1) obtain c where c: "Chr c \<in> set a" "c \<notin> set s" by blast
  from rx_seq_literal [OF a(2) c(1)] have "c \<in> set suf" .
  with s c(2) show False by simp
qed

lemma boundary_match_intro:
  assumes "is_digit d"
  shows "boundary_match (confirmed_case @ d # rest)"
  using assms
  by (simp add: boundary_match_def re_match_def boundary_pat_def lit_def confirmed_case_def
      is_digit_def rx_star_only)

text \<open>
  A boundary text with an identifier of 4301 digits and nothing else: no other
  pattern is found in it, and \<open>int\<close> raises on the identifier.
\<close>

lemma long_identifier:
  "boundary_match (confirmed_case @ replicate 4301 0x31)
   \<and> re_search cc_pat (confirmed_case @ replicate 4301 0x31) = None
   \<and> re_search gender_pat (confirmed_case @ replicate 4301 0x31) = None
   \<and> re_search age_pat (confirmed_case @ replicate 4301 0x31) = None
   \<and> re_search address_pat (confirmed_case @ replicate 4301 0x31) = None
   \<and> extract_number (confirmed_case @ replicate 4301 0x31) 0 = Inl ValueError
   \<and> build_case (confirmed_case @ replicate 4301 0x31) = Inl ValueError"
proof -
  define x where "x = confirmed_case @ replicate 4301 (0x31::nat)"
  have r: "replicate 4301 (0x31::nat) = 0x31 # replicate 4300 0x31"
  proof -
    have "(4301::nat) = Suc 4300" by simp
    then show ?thesis by (simp only: replicate_Suc)
  qed
  have st: "set x = {0x786E, 0x8BCA, 0x75C5, 0x4F8B, 0x31}"
    by (auto simp: x_def confirmed_case_def)
  have b: "boundary_match x"
    unfolding x_def r by (rule boundary_match_intro) (simp add: is_digit_def digit_def)
  have cc: "re_search cc_pat x = None"
    by (rule re_search_literal) (auto simp: st cc_pat_def lit_def close_contact_def)
  have g: "re_search gender_pat x = None"
    by (rule re_search_literal) (auto simp: st gender_pat_def male_def female_def)
  have ag: "re_search age_pat x = None"
    by (rule re_search_literal) (auto simp: st age_pat_def lit_def years_old_def)
  have ad: "re_search address_pat x = None"
    by (rule re_search_literal) (auto simp: st address_pat_def lit_def residing_def)
  have run: "first_digit_run x = replicate 4301 0x31"
    by (simp add: x_def first_digit_run_def confirmed_case_def is_digit_def digit_def)
  have "\<exists>c \<in> set x. is_digit c"
    by (simp add: st is_digit_def digit_def)
  from extract_number_digit [OF this] have e: "extract_number x 0 = Inl ValueError"
    by (simp add: run py_int_def int_max_str_digits_def)
  then have "build_case x = Inl ValueError"
    by (simp add: build_case_def)
  with b cc g ag ad e show ?thesis
    unfolding x_def by simp
qed

section \<open>Properties of the loop of \<open>find_cases\<close>\<close>

lemma record_of_trace [simp]: "record_of (r\<lparr>trace := t\<rparr>) s = record_of r s"
  by (simp add: record_of_def)

lemma set_last_trace_nonempty:
  assumes "all_cases \<noteq> []"
  shows "set_last_trace all_cases s = Inr (butlast all_cases @ [(last all_cases)\<lparr>trace := s\<rparr>])"
  using assms by (simp add: set_last_trace_def)

lemma list_all2_set_last:
  assumes "list_all2 record_of cs ts" and "cs \<noteq> []"
  shows "list_all2 record_of (butlast cs @ [(last cs)\<lparr>trace := s\<rparr>]) ts"
proof -
  from assms(2) obtain bs b where cs: "cs = bs @ [b]"
    by (metis append_butlast_last_id)
  from assms(1) obtain us u where ts: "ts = us @ [u]" and l: "list_all2 record_of bs us"
    and r: "record_of b u"
    unfolding cs by (auto simp: list_all2_append1 list_all2_Cons1)
  show ?thesis unfolding cs ts using l r by (simp add: list_all2_appendI)
qed

lemma build_case_boundary:
  assumes "boundary_match s" and "digits_ok s"
  shows "\<exists>c. build_case s = Inr c \<and> record_of c s \<and> trace c = []"
proof -
  have dig: "\<exists>c \<in> set s. is_digit c"
    using assms(1) by (rule boundary_has_digit)
  show ?thesis
    unfolding record_of_def build_case_fields [OF dig] using assms(2) by simp
qed


lemma span_step_nonempty:
  assumes "cs \<noteq> []" and "list_all2 record_of cs ts"
    and ok: "boundary_match s \<Longrightarrow> digits_ok s"
  shows "\<exists>cs'. span_step (cs, flag) s = Inr (cs', label_match s) \<and> cs' \<noteq> []
              \<and> list_all2 record_of cs' (ts @ filter boundary_match [s])"
proof -
  define cs1 where "cs1 = (if flag then butlast cs @ [(last cs)\<lparr>trace := s\<rparr>] else cs)"
  have a: "assign_trace (cs, flag) s = Inr (cs1, False)"
    using assms(1) by (simp add: assign_trace_def set_last_trace_def cs1_def)
  have ne: "cs1 \<noteq> []" using assms(1) by (simp add: cs1_def)
  have l1: "list_all2 record_of cs1 ts"
    using assms list_all2_set_last [OF assms(2) assms(1)] by (simp add: cs1_def)
  show ?thesis
  proof (cases "boundary_match s")
    case True
    from build_case_boundary [OF True ok [OF True]] obtain c where
      c: "build_case s = Inr c" and rc: "record_of c s"
      by blast
    have d: "detect_case (cs1, False) s = Inr (cs1 @ [c], False)"
      using True c by (simp add: detect_case_def)
    from rc have "list_all2 record_of (cs1 @ [c]) (ts @ [s])"
      using l1 by (simp add: list_all2_appendI)
    then show ?thesis
      using True a d by (simp add: span_step_def detect_label_def)
  next
    case False
    then show ?thesis
      using a ne l1 by (simp add: span_step_def detect_case_def detect_label_def)
  qed
qed

lemma span_loop_nonempty:
  assumes "cs \<noteq> []" and "list_all2 record_of cs ts"
    and "list_all digits_ok (filter boundary_match spans)"
  shows "\<exists>cs' fl. span_loop spans (cs, flag) = Inr (cs', fl)
              \<and> list_all2 record_of cs' (ts @ filter boundary_match spans)"
  using assms
proof (induction spans arbitrary: cs ts flag)
  case Nil
  then show ?case by simp
next
  case (Cons s spans)
  have ok: "boundary_match s \<Longrightarrow> digits_ok s"
    using Cons.prems(3) by simp
  have rest: "list_all digits_ok (filter boundary_match spans)"
    using Cons.prems(3) by (simp split: if_splits)
  from span_step_nonempty [OF Cons.prems(1,2) ok, of flag] obtain cs1 where
    st: "span_step (cs, flag) s = Inr (cs1, label_match s)" and ne: "cs1 \<noteq> []"
    and l: "list_all2 record_of cs1 (ts @ filter boundary_match [s])"
    by blast
  from Cons.IH [OF ne l rest, of "label_match s"] show ?case
    using st by auto
qed

lemma span_step_empty_flag: "span_step ([], True) s = Inl IndexError"
  by (simp add: span_step_def assign_trace_def set_last_trace_def)

lemma detect_label_eq: "detect_label (cs, False) s = (cs, label_match s)"
  by (simp add: detect_label_def)

lemma span_step_noflag:
  "span_step (cs, False) s =
     (if boundary_match s then
        (case build_case s of Inl e \<Rightarrow> Inl e | Inr c \<Rightarrow> Inr (cs @ [c], label_match s))
      else Inr (cs, label_match s))"
proof (cases "build_case s")
  case (Inl e)
  then show ?thesis
    by (simp add: span_step_def assign_trace_def detect_case_def detect_label_eq)
next
  case (Inr c)
  then show ?thesis
    by (simp add: span_step_def assign_trace_def detect_case_def detect_label_eq)
qed

lemma span_loop_orphan:
  "orphan_trace spans \<Longrightarrow> span_loop spans ([], False) = Inl IndexError"
proof (induction spans)
  case Nil
  then show ?case by simp
next
  case (Cons s spans)
  then have nb: "\<not> boundary_match s" by (simp split: if_splits)
  show ?case
  proof (cases "label_match s")
    case True
    with Cons.prems nb obtain x xs where "spans = x # xs"
      by (auto simp: neq_Nil_conv)
    then show ?thesis
      using nb True by (simp add: span_step_noflag span_step_empty_flag)
  next
    case False
    then show ?thesis
      using nb Cons by (simp add: span_step_noflag)
  qed
qed

lemma span_loop_records:
  assumes "\<not> orphan_trace spans" and "list_all digits_ok (filter boundary_match spans)"
  shows "\<exists>cs fl. span_loop spans ([], False) = Inr (cs, fl)
           \<and> list_all2 record_of cs (filter boundary_match spans)"
  using assms
proof (induction spans)
  case Nil
  show ?case by auto
next
  case (Cons s spans)
  show ?case
  proof (cases "boundary_match s")
    case True
    then have ok: "digits_ok s" and rest: "list_all digits_ok (filter boundary_match spans)"
      using Cons.prems(2) by simp_all
    from build_case_boundary [OF True ok] obtain c where
      c: "build_case s = Inr c" and rc: "record_of c s" by blast
    have r: "list_all2 record_of [c] [s]"
      using rc by simp
    from span_loop_nonempty [OF _ r rest, of "label_match s"] show ?thesis
      using True c by (auto simp: span_step_noflag)
  next
    case nb: False
    show ?thesis
    proof (cases "label_match s")
      case True
      with Cons.prems(1) nb have "spans = []" by simp
      then show ?thesis using nb True by (auto simp: span_step_noflag)
    next
      case False
      then show ?thesis using nb Cons by (auto simp: span_step_noflag)
    qed
  qed
qed

lemma find_cases_orphan: "orphan_trace spans \<Longrightarrow> find_cases spans = Inl IndexError"
  by (simp add: find_cases_def span_loop_orphan)

lemma find_cases_records:
  assumes "\<not> orphan_trace spans" and "list_all digits_ok (filter boundary_match spans)"
  shows "\<exists>cs. find_cases spans = Inr cs \<and> list_all2 record_of cs (filter boundary_match spans)"
  using span_loop_records [OF assms] by (auto simp: find_cases_def)

lemma orphan_trace_iff:
  "orphan_trace spans \<longleftrightarrow>
     (\<exists>pre l x post. spans = pre @ l # x # post \<and> label_match l
        \<and> (\<forall>t \<in> set pre. \<not> boundary_match t))"
proof (induction spans)
  case Nil
  show ?case by simp
next
  case (Cons s spans)
  show ?case
  proof
    assume o: "orphan_trace (s # spans)"
    then have nb: "\<not> boundary_match s" by (simp split: if_splits)
    show "\<exists>pre l x post. s # spans = pre @ l # x # post \<and> label_match l
            \<and> (\<forall>t \<in> set pre. \<not> boundary_match t)"
    proof (cases "label_match s")
      case True
      with o nb obtain x post where "spans = x # post"
        by (auto simp: neq_Nil_conv)
      then have "s # spans = [] @ s # x # post \<and> label_match s
                 \<and> (\<forall>t \<in> set []. \<not> boundary_match t)"
        using True by simp
      then show ?thesis by blast
    next
      case False
      with o nb have "orphan_trace spans" by simp
      with Cons.IH obtain pre l x post where
        "spans = pre @ l # x # post" "label_match l" "\<forall>t \<in> set pre. \<not> boundary_match t"
        by blast
      then have "s # spans = (s # pre) @ l # x # post \<and> label_match l
                 \<and> (\<forall>t \<in> set (s # pre). \<not> boundary_match t)"
        using nb by simp
      then show ?thesis by blast
    qed
  next
    assume "\<exists>pre l x post. s # spans = pre @ l # x # post \<and> label_match l
              \<and> (\<forall>t \<in> set pre. \<not> boundary_match t)"
    then obtain pre l x post where
      e: "s # spans = pre @ l # x # post" and l: "label_match l"
      and nb: "\<forall>t \<in> set pre. \<not> boundary_match t"
      by blast
    show "orphan_trace (s # spans)"
    proof (cases pre)
      case Nil
      with e l show ?thesis by (auto simp: label_not_boundary)
    next
      case (Cons p pre')
      with e have s: "s = p" and sp: "spans = pre' @ l # x # post" by simp_all
      have "orphan_trace spans"
        using Cons.IH sp l nb Cons by auto
      then show ?thesis
        using s nb Cons sp by auto
    qed
  qed
qed

section \<open>Evaluation on concrete texts\<close>

lemmas pattern_defs =
  number_pat_def boundary_pat_def cc_pat_def gender_pat_def age_pat_def address_pat_def
  trace_pat_def link_pat_def lit_def digit_def confirmed_case_def close_contact_def
  male_def female_def years_old_def residing_def full_stop_def activities_def month_def
  day_yangzhou_def

lemmas find_cases_defs =
  find_cases_def span_step_def assign_trace_def detect_case_def detect_label_def
  build_case_def set_last_trace_def extract_number_def py_int_def int_max_str_digits_def
  re_match_def dec_value_def slice_2_to_last_def new_Case_def boundary_match_def
  label_match_def

lemmas field_defs =
  number_field_def gender_field_def address_field_def first_digit_run_def is_digit_def
  re_match_def dec_value_def digits_ok_def found_within_limit_def within_limit_def
  int_max_str_digits_def

section \<open>The claims about the record of one boundary node\<close>

text \<open>
  C1. The node text of the specification's first example (the characters of
  "confirmed case 12, male, 45 years old, close contact of 3, residing in Hanjiang
  district of Yangzhou.", by code point) gives exactly one record: identifier 12,
  gender 0 (male), age 45, close-contact identifier 3, and as address the six
  characters between the marker and the full stop.
\<close>

theorem example_full_record:
  "find_cases
     [[0x786E, 0x8BCA, 0x75C5, 0x4F8B, 0x31, 0x32, 0xFF0C, 0x7537, 0xFF0C, 0x34, 0x35,
       0x5C81, 0xFF0C, 0x33, 0x5BC6, 0x63A5, 0xFF0C, 0x73B0, 0x4F4F, 0x626C, 0x5DDE,
       0x5E02, 0x9097, 0x6C5F, 0x533A, 0x3002]]
   = Inr [\<lparr>case_id = 12, close_contact_id = 3, gender = 0, age = 45,
            address = [0x626C, 0x5DDE, 0x5E02, 0x9097, 0x6C5F, 0x533A], trace = []\<rparr>]"
  by (simp add: find_cases_defs pattern_defs)

text \<open>
  C4, as the code has it. When the boundary pattern matches a node text, the first
  run of digits of the text is not empty, so the no-digits branch of
  \<open>extract_number\<close> (TypeError) is unreachable: \<open>extract_number\<close> returns the value of
  that run, or raises ValueError when the run is longer than the 4300 digits that
  \<open>int\<close> accepts. Every record that is appended for the node carries the value as
  its identifier, which is not the unset value \<open>-1\<close>; a record is appended exactly
  when no digit run that \<open>int\<close> converts for the node is longer than the limit, and
  ValueError is raised otherwise.
\<close>

theorem boundary_identifier_set:
  assumes "boundary_match s"
  shows "first_digit_run s \<noteq> []
         \<and> extract_number s 0 =
             (if within_limit (first_digit_run s) then Inr (dec_value (first_digit_run s))
              else Inl ValueError)
         \<and> (if digits_ok s
             then \<exists>c. detect_case (all_cases, flag) s = Inr (all_cases @ [c], flag)
                    \<and> extract_number s 0 = Inr (case_id c)
                    \<and> case_id c = dec_value (first_digit_run s)
                    \<and> case_id c \<noteq> -1
             else detect_case (all_cases, flag) s = Inl ValueError)"
proof -
  have dig: "\<exists>c \<in> set s. is_digit c"
    using assms by (rule boundary_has_digit)
  have "0 \<le> dec_value (first_digit_run s)"
    by (rule dec_value_nonneg) (rule first_digit_run_digits)
  then have ne: "dec_value (first_digit_run s) \<noteq> -1" by simp
  have e: "extract_number s 0 =
             (if within_limit (first_digit_run s) then Inr (dec_value (first_digit_run s))
              else Inl ValueError)"
    by (simp add: extract_number_digit [OF dig] py_int_limit)
  have d: "digits_ok s \<Longrightarrow> within_limit (first_digit_run s)"
    by (simp add: digits_ok_def)
  show ?thesis
    using assms ne e d boundary_first_run [OF assms, THEN conjunct2]
    by (simp add: detect_case_def build_case_fields [OF dig])
qed

theorem boundary_identifier_set_witness:
  "boundary_match [0x786E, 0x8BCA, 0x75C5, 0x4F8B, 0x30, 0x37, 0xFF0C]
   \<and> digits_ok [0x786E, 0x8BCA, 0x75C5, 0x4F8B, 0x30, 0x37, 0xFF0C]
   \<and> (\<exists>c. detect_case ([], False) [0x786E, 0x8BCA, 0x75C5, 0x4F8B, 0x30, 0x37, 0xFF0C]
              = Inr ([] @ [c], False)
          \<and> extract_number [0x786E, 0x8BCA, 0x75C5, 0x4F8B, 0x30, 0x37, 0xFF0C] 0
              = Inr (case_id c)
          \<and> case_id c = 7)"
proof -
  have h: "boundary_match [0x786E, 0x8BCA, 0x75C5, 0x4F8B, 0x30, 0x37, 0xFF0C]"
    by (simp add: boundary_match_def re_match_def pattern_defs)
  have k: "digits_ok [0x786E, 0x8BCA, 0x75C5, 0x4F8B, 0x30, 0x37, 0xFF0C]"
    by (simp add: field_defs pattern_defs)
  have v: "dec_value (first_digit_run [0x786E, 0x8BCA, 0x75C5, 0x4F8B, 0x30, 0x37, 0xFF0C]) = 7"
    by (simp add: field_defs pattern_defs)
  from k boundary_identifier_set [OF h, of "[]" False, THEN conjunct2, THEN conjunct2]
  have "\<exists>c. detect_case ([], False) [0x786E, 0x8BCA, 0x75C5, 0x4F8B, 0x30, 0x37, 0xFF0C]
               = Inr ([] @ [c], False)
           \<and> extract_number [0x786E, 0x8BCA, 0x75C5, 0x4F8B, 0x30, 0x37, 0xFF0C] 0
               = Inr (case_id c)
           \<and> case_id c
               = dec_value (first_digit_run [0x786E, 0x8BCA, 0x75C5, 0x4F8B, 0x30, 0x37, 0xFF0C])
           \<and> case_id c \<noteq> -1"
    by (simp only: if_True)
  then show ?thesis
    using h k unfolding v by blast
qed

text \<open>
  C4, as the claim states it ("cannot fail"), fails on the boundary text whose
  identifier is the digit 1 written 4301 times: the boundary pattern matches and
  \<open>extract_number\<close> raises ValueError.
\<close>

theorem boundary_identifier_set_counterexample:
  "boundary_match (confirmed_case @ replicate 4301 0x31)
   \<and> extract_number (confirmed_case @ replicate 4301 0x31) 0 = Inl ValueError"
  using long_identifier by simp

text \<open>
  C5, as the code has it. For a node text that the boundary pattern matches and in
  which no digit run that \<open>int\<close> converts is longer than 4300 digits, building the
  record does not raise and the record is appended; each of its fields is the
  result of the search for its own pattern in the text, whatever the other searches
  find, and is the unset value (\<open>-1\<close>, or the empty text for the address) where its
  pattern is not found. The witness is the specification's example without the age
  token: identifier 13, gender 1 (female), age unset, close contact unset, and the
  three characters of the address.
\<close>

theorem fields_independent:
  assumes "boundary_match s" and "digits_ok s"
  shows "\<exists>c. build_case s = Inr c
             \<and> detect_case (all_cases, flag) s = Inr (all_cases @ [c], flag)
             \<and> case_id c = dec_value (first_digit_run s)
             \<and> close_contact_id c = number_field cc_pat s
             \<and> gender c = gender_field s
             \<and> age c = number_field age_pat s
             \<and> address c = address_field s
             \<and> trace c = []"
proof -
  have dig: "\<exists>c \<in> set s. is_digit c"
    using assms(1) by (rule boundary_has_digit)
  show ?thesis
    using assms by (simp add: detect_case_def build_case_fields [OF dig])
qed

theorem fields_independent_witness:
  "boundary_match [0x786E, 0x8BCA, 0x75C5, 0x4F8B, 0x31, 0x33, 0xFF0C, 0x5973, 0xFF0C,
                   0x73B0, 0x4F4F, 0x5E7F, 0x9675, 0x533A, 0x3002]
   \<and> build_case [0x786E, 0x8BCA, 0x75C5, 0x4F8B, 0x31, 0x33, 0xFF0C, 0x5973, 0xFF0C,
                 0x73B0, 0x4F4F, 0x5E7F, 0x9675, 0x533A, 0x3002]
       = Inr \<lparr>case_id = 13, close_contact_id = -1, gender = 1, age = -1,
              address = [0x5E7F, 0x9675, 0x533A], trace = []\<rparr>"
proof -
  have h: "boundary_match [0x786E, 0x8BCA, 0x75C5, 0x4F8B, 0x31, 0x33, 0xFF0C, 0x5973,
                           0xFF0C, 0x73B0, 0x4F4F, 0x5E7F, 0x9675, 0x533A, 0x3002]"
    by (simp add: boundary_match_def re_match_def pattern_defs)
  have k: "digits_ok [0x786E, 0x8BCA, 0x75C5, 0x4F8B, 0x31, 0x33, 0xFF0C, 0x5973,
                      0xFF0C, 0x73B0, 0x4F4F, 0x5E7F, 0x9675, 0x533A, 0x3002]"
    by (simp add: field_defs pattern_defs)
  from fields_independent [OF h k, of "[]" False] obtain c where
    c: "build_case [0x786E, 0x8BCA, 0x75C5, 0x4F8B, 0x31, 0x33, 0xFF0C, 0x5973,
                    0xFF0C, 0x73B0, 0x4F4F, 0x5E7F, 0x9675, 0x533A, 0x3002] = Inr c"
    and f: "case_id c = dec_value (first_digit_run [0x786E, 0x8BCA, 0x75C5, 0x4F8B, 0x31,
              0x33, 0xFF0C, 0x5973, 0xFF0C, 0x73B0, 0x4F4F, 0x5E7F, 0x9675, 0x533A, 0x3002])"
      "close_contact_id c = number_field cc_pat [0x786E, 0x8BCA, 0x75C5, 0x4F8B, 0x31,
              0x33, 0xFF0C, 0x5973, 0xFF0C, 0x73B0, 0x4F4F, 0x5E7F, 0x9675, 0x533A, 0x3002]"
      "gender c = gender_field [0x786E, 0x8BCA, 0x75C5, 0x4F8B, 0x31,
              0x33, 0xFF0C, 0x5973, 0xFF0C, 0x73B0, 0x4F4F, 0x5E7F, 0x9675, 0x533A, 0x3002]"
      "age c = number_field age_pat [0x786E, 0x8BCA, 0x75C5, 0x4F8B, 0x31,
              0x33, 0xFF0C, 0x5973, 0xFF0C, 0x73B0, 0x4F4F, 0x5E7F, 0x9675, 0x533A, 0x3002]"
      "address c = address_field [0x786E, 0x8BCA, 0x75C5, 0x4F8B, 0x31,
              0x33, 0xFF0C, 0x5973, 0xFF0C, 0x73B0, 0x4F4F, 0x5E7F, 0x9675, 0x533A, 0x3002]"
      "trace c = []"
    by blast
  have "c = \<lparr>case_id = 13, close_contact_id = -1, gender = 1, age = -1,
             address = [0x5E7F, 0x9675, 0x533A], trace = []\<rparr>"
    using f by (cases c) (simp add: field_defs pattern_defs)
  with h c show ?thesis by simp
qed

text \<open>
  C5, as the claim states it ("for every record text ... does not raise, and the
  record is still appended"), fails on the boundary text whose identifier is the
  digit 1 written 4301 times: the age, gender, address and close-contact patterns
  are not found in it, and no record is appended, because \<open>int\<close> raises ValueError
  on the identifier.
\<close>

theorem fields_independent_counterexample:
  "boundary_match (confirmed_case @ replicate 4301 0x31)
   \<and> re_search age_pat (confirmed_case @ replicate 4301 0x31) = None
   \<and> re_search gender_pat (confirmed_case @ replicate 4301 0x31) = None
   \<and> re_search address_pat (confirmed_case @ replicate 4301 0x31) = None
   \<and> re_search cc_pat (confirmed_case @ replicate 4301 0x31) = None
   \<and> build_case (confirmed_case @ replicate 4301 0x31) = Inl ValueError
   \<and> detect_case ([], False) (confirmed_case @ replicate 4301 0x31) = Inl ValueError"
  using long_identifier by (simp add: detect_case_def)

section \<open>The claims about the walk over the nodes\<close>





text \<open>
  C3, as the code has it. On every document in which no trace label with a node
  after it comes before the first boundary node, and in which no boundary node has
  a digit run of more than 4300 digits for \<open>int\<close> to convert, \<open>find_cases\<close> returns
  one record for each node that the boundary pattern matches, in the order of
  these nodes: the
  list of records and the list of boundary nodes correspond position by position,
  each record being the one built from its node (up to the activity trace, which a
  later node may set).
\<close>

theorem one_record_per_boundary:
  assumes "\<not> orphan_trace spans"
    and "list_all digits_ok (filter boundary_match spans)"
  shows "\<exists>cs. find_cases spans = Inr cs
              \<and> list_all2 record_of cs (filter boundary_match spans)"
  using assms by (rule find_cases_records)

theorem one_record_per_boundary_witness:
  "\<not> orphan_trace
       [[0x786E, 0x8BCA, 0x75C5, 0x4F8B, 0x32], [0x6D3B, 0x52A8, 0x8F68, 0x8FF9],
        [0x8D85, 0x5E02], [0x786E, 0x8BCA, 0x75C5, 0x4F8B, 0x31]]
   \<and> list_all digits_ok
         [[0x786E, 0x8BCA, 0x75C5, 0x4F8B, 0x32], [0x786E, 0x8BCA, 0x75C5, 0x4F8B, 0x31]]
   \<and> (\<exists>cs. find_cases
              [[0x786E, 0x8BCA, 0x75C5, 0x4F8B, 0x32], [0x6D3B, 0x52A8, 0x8F68, 0x8FF9],
               [0x8D85, 0x5E02], [0x786E, 0x8BCA, 0x75C5, 0x4F8B, 0x31]] = Inr cs
          \<and> list_all2 record_of cs
               [[0x786E, 0x8BCA, 0x75C5, 0x4F8B, 0x32], [0x786E, 0x8BCA, 0x75C5, 0x4F8B, 0x31]])"
proof -
  have h: "\<not> orphan_trace
       [[0x786E, 0x8BCA, 0x75C5, 0x4F8B, 0x32], [0x6D3B, 0x52A8, 0x8F68, 0x8FF9],
        [0x8D85, 0x5E02], [0x786E, 0x8BCA, 0x75C5, 0x4F8B, 0x31]]"
    by (simp add: boundary_match_def label_match_def re_match_def pattern_defs)
  have f: "filter boundary_match
       [[0x786E, 0x8BCA, 0x75C5, 0x4F8B, 0x32], [0x6D3B, 0x52A8, 0x8F68, 0x8FF9],
        [0x8D85, 0x5E02], [0x786E, 0x8BCA, 0x75C5, 0x4F8B, 0x31]]
      = [[0x786E, 0x8BCA, 0x75C5, 0x4F8B, 0x32], [0x786E, 0x8BCA, 0x75C5, 0x4F8B, 0x31]]"
    by (simp add: boundary_match_def re_match_def pattern_defs)
  have k: "list_all digits_ok
       [[0x786E, 0x8BCA, 0x75C5, 0x4F8B, 0x32], [0x786E, 0x8BCA, 0x75C5, 0x4F8B, 0x31]]"
    by (simp add: field_defs pattern_defs)
  have k': "list_all digits_ok (filter boundary_match
       [[0x786E, 0x8BCA, 0x75C5, 0x4F8B, 0x32], [0x6D3B, 0x52A8, 0x8F68, 0x8FF9],
        [0x8D85, 0x5E02], [0x786E, 0x8BCA, 0x75C5, 0x4F8B, 0x31]])"
    unfolding f by (rule k)
  show ?thesis
    using h k one_record_per_boundary [OF h k'] unfolding f by blast
qed

text \<open>
  C3, as the claim states it ("for every document"), fails on the document of the two
  nodes "activity trace", "supermarket": no node matches the boundary pattern, and
  \<open>find_cases\<close> returns no list at all; it raises IndexError. It fails as well on
  the document of one boundary node whose identifier is the digit 1 written 4301
  times: \<open>find_cases\<close> raises ValueError.
\<close>

theorem one_record_per_boundary_counterexample:
  "find_cases [[0x6D3B, 0x52A8, 0x8F68, 0x8FF9], [0x8D85, 0x5E02]] = Inl IndexError
   \<and> boundary_match (confirmed_case @ replicate 4301 0x31)
   \<and> find_cases [confirmed_case @ replicate 4301 0x31] = Inl ValueError"
proof -
  have a: "find_cases [[0x6D3B, 0x52A8, 0x8F68, 0x8FF9], [0x8D85, 0x5E02]] = Inl IndexError"
    by (simp add: find_cases_defs pattern_defs)
  have b: "find_cases [confirmed_case @ replicate 4301 0x31] = Inl ValueError"
    using long_identifier by (simp add: find_cases_def span_step_noflag)
  from a b long_identifier show ?thesis by simp
qed

text \<open>
  C6. If a node that the trace label matches is followed by a further node, and no
  node before the label matches the boundary pattern, then \<open>find_cases\<close> raises
  IndexError instead of returning a list, whatever comes after.
\<close>

theorem trace_before_boundary_fatal:
  assumes "label_match l" and "\<forall>t \<in> set pre. \<not> boundary_match t"
  shows "find_cases (pre @ l # x # post) = Inl IndexError"
proof -
  have "orphan_trace (pre @ l # x # post)"
    unfolding orphan_trace_iff using assms by blast
  then show ?thesis
    by (rule find_cases_orphan)
qed

theorem trace_before_boundary_fatal_witness:
  "label_match [0x6D3B, 0x52A8, 0x8F68, 0x8FF9, 0xFF1A]
   \<and> \<not> boundary_match [0x8D85, 0x5E02]
   \<and> find_cases ([[0x8D85, 0x5E02]] @ [0x6D3B, 0x52A8, 0x8F68, 0x8FF9, 0xFF1A]
                  # [0x8D85] # [[0x786E, 0x8BCA, 0x75C5, 0x4F8B, 0x31]]) = Inl IndexError"
proof -
  have l: "label_match [0x6D3B, 0x52A8, 0x8F68, 0x8FF9, 0xFF1A]"
    by (simp add: label_match_def re_match_def pattern_defs)
  have p: "\<forall>t \<in> set [[0x8D85, 0x5E02]]. \<not> boundary_match t"
    by (simp add: boundary_match_def re_match_def pattern_defs)
  show ?thesis
    using l p trace_before_boundary_fatal [OF l p] by simp
qed

lemma span_loop_append:
  "span_loop (xs @ ys) st =
     (case span_loop xs st of Inl e \<Rightarrow> Inl e | Inr st' \<Rightarrow> span_loop ys st')"
  by (induction xs arbitrary: st) (simp_all split: sum.splits)

lemma span_step_label_flag:
  assumes "label_match l" and "span_step st l = Inr st'"
  shows "snd st' = True"
  using assms
  by (cases st)
     (auto simp: span_step_def detect_label_def split: sum.splits prod.splits)

text \<open>
  C10. \<open>find_cases\<close> starts every document with the flag false and the main loop
  keeps only the list it returns. When a document ends with a trace label, the flag
  is true at the end of its walk; the next document is still processed as on its
  own, and the merged list is the two results one after the other.
\<close>

theorem awaiting_trace_local:
  assumes "label_match l"
    and "find_cases (d1 @ [l]) = Inr c1"
    and "find_cases d2 = Inr c2"
  shows "span_loop (d1 @ [l]) ([], False) = Inr (c1, True)
         \<and> collect_cases ((d1 @ [l]) # d2 # rest) acc = collect_cases rest (acc @ c1 @ c2)"
proof -
  from assms(2) obtain fl where e: "span_loop (d1 @ [l]) ([], False) = Inr (c1, fl)"
    by (auto simp: find_cases_def split: sum.splits)
  then obtain st where "span_step st l = Inr (c1, fl)"
    by (auto simp: span_loop_append split: sum.splits)
  from span_step_label_flag [OF assms(1) this] have "fl = True" by simp
  with e show ?thesis
    using assms(2,3) by simp
qed

text \<open>
  The witness: the first document is "confirmed case 1", "activity trace", the second
  is "supermarket", "confirmed case 2". The text "supermarket" is not taken as the
  trace of record 1.
\<close>

theorem awaiting_trace_local_witness:
  "label_match [0x6D3B, 0x52A8, 0x8F68, 0x8FF9]
   \<and> collect_cases
       [[[0x786E, 0x8BCA, 0x75C5, 0x4F8B, 0x31]] @ [[0x6D3B, 0x52A8, 0x8F68, 0x8FF9]],
        [[0x8D85, 0x5E02], [0x786E, 0x8BCA, 0x75C5, 0x4F8B, 0x32]]] []
     = Inr [\<lparr>case_id = 1, close_contact_id = -1, gender = -1, age = -1, address = [],
              trace = []\<rparr>,
            \<lparr>case_id = 2, close_contact_id = -1, gender = -1, age = -1, address = [],
              trace = []\<rparr>]"
proof -
  have l: "label_match [0x6D3B, 0x52A8, 0x8F68, 0x8FF9]"
    by (simp add: label_match_def re_match_def pattern_defs)
  have a: "find_cases ([[0x786E, 0x8BCA, 0x75C5, 0x4F8B, 0x31]] @ [[0x6D3B, 0x52A8, 0x8F68, 0x8FF9]])
             = Inr [\<lparr>case_id = 1, close_contact_id = -1, gender = -1, age = -1,
                     address = [], trace = []\<rparr>]"
    by (simp add: find_cases_defs pattern_defs)
  have b: "find_cases [[0x8D85, 0x5E02], [0x786E, 0x8BCA, 0x75C5, 0x4F8B, 0x32]]
             = Inr [\<lparr>case_id = 2, close_contact_id = -1, gender = -1, age = -1,
                     address = [], trace = []\<rparr>]"
    by (simp add: find_cases_defs pattern_defs)
  show ?thesis
    using l awaiting_trace_local [OF l a b, of "[]" "[]"] by simp
qed

section \<open>The claims about the output\<close>

lemma print_loop_eq:
  "print_loop cs out =
     out @ map (\<lambda>c. str_Case c @ [newline]) (filter (\<lambda>c. \<not> is_empty c) cs)"
  by (induction cs arbitrary: out) simp_all

lemma write_loop_eq:
  "write_loop cs out = out @ map csv (filter (\<lambda>c. \<not> is_empty c) cs)"
  by (induction cs arbitrary: out) simp_all

text \<open>
  C7. \<open>is_empty\<close> holds exactly when gender, close contact and age are \<open>-1\<close> and
  address and trace are empty. The console report is the printed form of the sorted
  records for which it does not hold, and the file is the header followed by the
  rows of the same records: the records for which it holds, and only they, are left
  out of both.
\<close>

theorem empty_records_excluded:
  "(is_empty r \<longleftrightarrow>
      gender r = -1 \<and> close_contact_id r = -1 \<and> age r = -1 \<and> address r = [] \<and> trace r = [])
   \<and> console_report all_cases
       = map (\<lambda>c. str_Case c @ [newline])
           (filter (\<lambda>c. \<not> is_empty c) (sort_key case_id all_cases))
   \<and> result_csv all_cases
       = csv_header # map csv (filter (\<lambda>c. \<not> is_empty c) (sort_key case_id all_cases))"
  by (simp add: is_empty_def console_report_def result_csv_def print_loop_eq write_loop_eq)

lemma digits_of_nat_small: "n < 10 \<Longrightarrow> digits_of_nat n = [48 + n]"
  by (subst digits_of_nat.simps) simp

lemma digits_of_nat_large:
  "10 \<le> n \<Longrightarrow> digits_of_nat n = digits_of_nat (n div 10) @ [48 + n mod 10]"
  by (subst digits_of_nat.simps) simp

lemma digits_of_nat_digits: "\<forall>c \<in> set (digits_of_nat n). 48 \<le> c \<and> c \<le> 57"
proof (induction n rule: digits_of_nat.induct)
  case (1 n)
  show ?case
  proof (cases "n < 10")
    case True
    then show ?thesis by (subst digits_of_nat.simps) simp
  next
    case False
    have "n mod 10 < 10" by simp
    then have "48 + n mod 10 \<le> 57" by linarith
    then show ?thesis
      using False 1 by (subst digits_of_nat.simps) auto
  qed
qed

lemma digits_of_nat_nonempty: "digits_of_nat n \<noteq> []"
  by (subst digits_of_nat.simps) simp

lemma dec_value_snoc: "dec_value (s @ [c]) = 10 * dec_value s + (int c - 48)"
  by (simp add: dec_value_def)

lemma dec_value_digits: "dec_value (digits_of_nat n) = int n"
proof (induction n rule: digits_of_nat.induct)
  case (1 n)
  show ?case
  proof (cases "n < 10")
    case True
    then show ?thesis by (subst digits_of_nat.simps) (simp add: dec_value_def)
  next
    case False
    then have "dec_value (digits_of_nat (n div 10)) = int (n div 10)"
      using 1 by simp
    then have "dec_value (digits_of_nat n) = 10 * int (n div 10) + int (n mod 10)"
      using False by (subst digits_of_nat.simps) (simp add: dec_value_snoc)
    then show ?thesis by (simp add: zdiv_int zmod_int)
  qed
qed

lemma read_int_str_int: "read_int (str_int i) = i"
proof (cases "i < 0")
  case True
  then show ?thesis by (simp add: read_int_def str_int_def dec_value_digits)
next
  case False
  obtain c r where cr: "digits_of_nat (nat i) = c # r"
    using digits_of_nat_nonempty [of "nat i"] by (cases "digits_of_nat (nat i)") auto
  then have "48 \<le> c" using digits_of_nat_digits [of "nat i"] by simp
  then have "c \<noteq> 45" by simp
  then show ?thesis
    using False cr dec_value_digits [of "nat i"] by (simp add: read_int_def str_int_def)
qed

lemma str_int_no_comma: "comma \<notin> set (str_int i)"
  using digits_of_nat_digits [of "nat i"] digits_of_nat_digits [of "nat (- i)"]
  by (auto simp: str_int_def comma_def)

lemma split_on_none: "d \<notin> set a \<Longrightarrow> split_on d a = [a]"
  by (induction a) auto

lemma split_on_field: "d \<notin> set a \<Longrightarrow> split_on d (a @ d # rest) = a # split_on d rest"
  by (induction a) (auto split: list.splits)

lemma csv_fields:
  assumes "comma \<notin> set (address c)" and "comma \<notin> set (trace c)"
  shows "split_on comma (butlast (csv c)) =
           [str_int (case_id c), str_int (gender c), str_int (age c), address c,
            str_int (close_contact_id c), trace c]"
proof -
  have b: "butlast (csv c) =
             str_int (case_id c) @ comma # str_int (gender c) @ comma # str_int (age c)
             @ comma # address c @ comma # str_int (close_contact_id c) @ comma # trace c"
    by (simp add: csv_def butlast_append)
  show ?thesis
    unfolding b using assms
    by (simp add: split_on_field split_on_none str_int_no_comma)
qed

text \<open>
  C8. A record whose address and trace hold no comma is read back from its row:
  the row without its line terminator splits at the commas into the six fields in
  the order of the header, the integers as their decimal text (\<open>-1\<close> included), and
  reading the four numeric fields as integers gives the record again.
\<close>

theorem csv_round_trip:
  assumes "comma \<notin> set (address c)" and "comma \<notin> set (trace c)"
  shows "split_on comma (butlast (csv c)) =
           [str_int (case_id c), str_int (gender c), str_int (age c), address c,
            str_int (close_contact_id c), trace c]
         \<and> parse_row (csv c) = Some c"
proof -
  have l: "csv c \<noteq> [] \<and> last (csv c) = newline"
    by (simp add: csv_def)
  show ?thesis
    using l by (simp add: parse_row_def csv_fields [OF assms] read_int_str_int)
qed

theorem csv_round_trip_witness:
  "comma \<notin> set [0x5E7F, 0x9675, 0x533A] \<and> comma \<notin> set ([]::nat list)
   \<and> csv \<lparr>case_id = 13, close_contact_id = -1, gender = 1, age = -1,
           address = [0x5E7F, 0x9675, 0x533A], trace = []\<rparr>
       = [0x31, 0x33, 0x2C, 0x31, 0x2C, 0x2D, 0x31, 0x2C, 0x5E7F, 0x9675, 0x533A, 0x2C,
          0x2D, 0x31, 0x2C, 0x0A]
   \<and> parse_row [0x31, 0x33, 0x2C, 0x31, 0x2C, 0x2D, 0x31, 0x2C, 0x5E7F, 0x9675, 0x533A,
                0x2C, 0x2D, 0x31, 0x2C, 0x0A]
       = Some \<lparr>case_id = 13, close_contact_id = -1, gender = 1, age = -1,
               address = [0x5E7F, 0x9675, 0x533A], trace = []\<rparr>"
proof -
  have h1: "comma \<notin> set (address \<lparr>case_id = 13, close_contact_id = -1, gender = 1,
              age = -1, address = [0x5E7F, 0x9675, 0x533A], trace = []\<rparr>)"
    by (simp add: comma_def)
  have h2: "comma \<notin> set (trace \<lparr>case_id = 13, close_contact_id = -1, gender = 1,
              age = -1, address = [0x5E7F, 0x9675, 0x533A], trace = []\<rparr>)"
    by simp
  have e: "csv \<lparr>case_id = 13, close_contact_id = -1, gender = 1, age = -1,
                address = [0x5E7F, 0x9675, 0x533A], trace = []\<rparr>
       = [0x31, 0x33, 0x2C, 0x31, 0x2C, 0x2D, 0x31, 0x2C, 0x5E7F, 0x9675, 0x533A, 0x2C,
          0x2D, 0x31, 0x2C, 0x0A]"
    by (simp add: csv_def str_int_def comma_def newline_def digits_of_nat_small
        digits_of_nat_large)
  show ?thesis
    using h1 h2 e csv_round_trip [OF h1 h2] by simp
qed

text \<open>
  The witness: of a record that only has its identifier and the record of the
  second example, the file holds the header and the row of the second.
\<close>

theorem empty_records_excluded_witness:
  "is_empty \<lparr>case_id = 5, close_contact_id = -1, gender = -1, age = -1, address = [],
             trace = []\<rparr>
   \<and> result_csv
       [\<lparr>case_id = 13, close_contact_id = -1, gender = 1, age = -1,
          address = [0x5E7F, 0x9675, 0x533A], trace = []\<rparr>,
        \<lparr>case_id = 5, close_contact_id = -1, gender = -1, age = -1, address = [],
          trace = []\<rparr>]
     = [csv_header,
        [0x31, 0x33, 0x2C, 0x31, 0x2C, 0x2D, 0x31, 0x2C, 0x5E7F, 0x9675, 0x533A, 0x2C,
         0x2D, 0x31, 0x2C, 0x0A]]"
  using
    empty_records_excluded
      [of "\<lparr>case_id = 5, close_contact_id = -1, gender = -1, age = -1, address = [],
             trace = []\<rparr>"
          "[\<lparr>case_id = 13, close_contact_id = -1, gender = 1, age = -1,
              address = [0x5E7F, 0x9675, 0x533A], trace = []\<rparr>,
            \<lparr>case_id = 5, close_contact_id = -1, gender = -1, age = -1, address = [],
              trace = []\<rparr>]"]
  by (simp add: is_empty_def csv_def str_int_def comma_def newline_def digits_of_nat_small
      digits_of_nat_large)

section \<open>The claim about the link collector\<close>

lemma url_loop_eq:
  "url_loop anchors urllist =
     (if \<exists>a \<in> set anchors. link_match (a_text a) \<and> a_attrs a ''href'' = None
      then Inl KeyError
      else Inr (urllist @ map (\<lambda>a. the (a_attrs a ''href''))
                            (filter (\<lambda>a. link_match (a_text a)) anchors)))"
  by (induction anchors arbitrary: urllist) (auto split: option.splits)

text \<open>
  C9. \<open>compile_url_list\<close> raises KeyError if some anchor whose text the link pattern
  matches at its start has no \<open>href\<close>; otherwise it returns the \<open>href\<close> values of the
  matching anchors, in document order, one entry for each matching anchor (an
  address that two matching anchors carry appears twice).
\<close>

theorem compile_url_list_result:
  "compile_url_list anchors =
     (if \<exists>a \<in> set anchors. link_match (a_text a) \<and> a_attrs a ''href'' = None
      then Inl KeyError
      else Inr (map (\<lambda>a. the (a_attrs a ''href''))
                  (filter (\<lambda>a. link_match (a_text a)) anchors)))"
  by (simp add: compile_url_list_def url_loop_eq)

text \<open>
  The witness: three anchors, the first and the third with a matching text ("8" month
  "3" day Yangzhou, and "8" month "4" day Yangzhou) and the same address, the second
  with another text and no \<open>href\<close>; and a single matching anchor without \<open>href\<close>.
\<close>

theorem compile_url_list_result_witness:
  "compile_url_list
     [\<lparr>a_text = [0x38, 0x6708, 0x33, 0x65E5, 0x626C, 0x5DDE],
        a_attrs = [''href'' \<mapsto> [0x2F, 0x61]]\<rparr>,
      \<lparr>a_text = [0x626C, 0x5DDE], a_attrs = Map.empty\<rparr>,
      \<lparr>a_text = [0x38, 0x6708, 0x34, 0x65E5, 0x626C, 0x5DDE, 0x5E02],
        a_attrs = [''href'' \<mapsto> [0x2F, 0x61]]\<rparr>]
   = Inr [[0x2F, 0x61], [0x2F, 0x61]]
   \<and> compile_url_list
       [\<lparr>a_text = [0x38, 0x6708, 0x33, 0x65E5, 0x626C, 0x5DDE], a_attrs = Map.empty\<rparr>]
     = Inl KeyError"
  using
    compile_url_list_result
      [of "[\<lparr>a_text = [0x38, 0x6708, 0x33, 0x65E5, 0x626C, 0x5DDE],
               a_attrs = [''href'' \<mapsto> [0x2F, 0x61]]\<rparr>,
            \<lparr>a_text = [0x626C, 0x5DDE], a_attrs = Map.empty\<rparr>,
            \<lparr>a_text = [0x38, 0x6708, 0x34, 0x65E5, 0x626C, 0x5DDE, 0x5E02],
               a_attrs = [''href'' \<mapsto> [0x2F, 0x61]]\<rparr>]"]
    compile_url_list_result
      [of "[\<lparr>a_text = [0x38, 0x6708, 0x33, 0x65E5, 0x626C, 0x5DDE],
               a_attrs = Map.empty\<rparr>]"]
  by (simp add: link_match_def re_match_def pattern_defs)

end
